theory Spec2Isabelle
  imports Complex_Main
begin

section \<open>Python primitives used by the three scripts\<close>

text \<open>
  The scripts work on Python's unbounded integers (\<open>int\<close> here) and on lists of booleans
  that are written by index. The only exception any of the modelled functions can raise is
  \<open>IndexError\<close>, from a list write or read outside the list.
\<close>

datatype py_error = IndexError

definition err_bind :: "py_error + 'a \<Rightarrow> ('a \<Rightarrow> py_error + 'b) \<Rightarrow> py_error + 'b" where
  "err_bind m f = (case m of Inl e \<Rightarrow> Inl e | Inr x \<Rightarrow> f x)"

text \<open>
  List subscripts: an index from \<open>-len\<close> to \<open>len - 1\<close> names a position (the negative
  ones count back from the end), every other index raises.
\<close>

definition py_index :: "nat \<Rightarrow> int \<Rightarrow> py_error + nat" where
  "py_index len i =
     (if 0 \<le> i \<and> i < int len then Inr (nat i)
      else if - int len \<le> i \<and> i < 0 then Inr (nat (i + int len))
      else Inl IndexError)"

definition setitem :: "'a list \<Rightarrow> int \<Rightarrow> 'a \<Rightarrow> py_error + 'a list" where
  "setitem xs i v = err_bind (py_index (length xs) i) (\<lambda>k. Inr (xs[k := v]))"

definition getitem :: "'a list \<Rightarrow> int \<Rightarrow> py_error + 'a" where
  "getitem xs i = err_bind (py_index (length xs) i) (\<lambda>k. Inr (xs ! k))"

text \<open>
  \<open>range(start, stop, step)\<close> for a positive step. Both call sites pass a step that is at
  least 2 (a loop index starting at 2, or a prime), so Python's \<open>ValueError\<close> for a zero
  step cannot occur; \<open>range(start, stop)\<close> is \<open>[start..stop - 1]\<close>.
\<close>

function py_range :: "int \<Rightarrow> int \<Rightarrow> int \<Rightarrow> int list" where
  "py_range start stop step =
     (if 0 < step \<and> start < stop then start # py_range (start + step) stop step else [])"
  by pat_completeness auto
termination
  by (relation "measure (\<lambda>(start, stop, step). nat (stop - start))") auto

declare py_range.simps [simp del]

text \<open>\<open>pow(b, e, m)\<close> for a non-negative exponent and a positive modulus.\<close>

definition py_pow :: "int \<Rightarrow> nat \<Rightarrow> int \<Rightarrow> int" where
  "py_pow b e m = b ^ e mod m"

section \<open>verify\_local\_roots.py\<close>

text \<open>The residue \<open>q\<close> that \<open>omega_brute\<close> and \<open>verify_mod47\<close> compute for one \<open>n\<close>.\<close>

definition Q_residue :: "int \<Rightarrow> int \<Rightarrow> int" where
  "Q_residue p n = (py_pow n 47 p - py_pow ((n - 1) mod p) 47 p) mod p"

fun count_roots :: "int \<Rightarrow> int list \<Rightarrow> int \<Rightarrow> int" where
  "count_roots p [] count = count"
| "count_roots p (n # ns) count =
     count_roots p ns (if Q_residue p n = 0 then count + 1 else count)"

definition omega_brute :: "int \<Rightarrow> int" where
  "omega_brute p = count_roots p [0..p - 1] 0"

definition omega_theory :: "int \<Rightarrow> int" where
  "omega_theory p = (if p = 47 then 0 else if (p - 1) mod 47 = 0 then 46 else 0)"

definition classify :: "int \<Rightarrow> string" where
  "classify p =
     (if p = 47 then ''ramified'' else if (p - 1) mod 47 = 0 then ''splitting'' else ''inert'')"

text \<open>The loop of \<open>verify_mod47\<close> returns \<open>False\<close> at the first residue that fails.\<close>

fun verify_loop :: "int list \<Rightarrow> bool" where
  "verify_loop [] = True"
| "verify_loop (n # ns) = (if Q_residue 47 n \<noteq> 1 then False else verify_loop ns)"

definition verify_mod47 :: bool where
  "verify_mod47 = verify_loop [0..46]"

section \<open>The prime sieve (both scripts carry the same copy)\<close>

text \<open>
  \<open>int(n ** 0.5)\<close> is the truncated double-precision square root. For the bounds the
  scripts can hold in memory the truncation is the integer square root, which is what
  \<open>int_sqrt\<close> computes by counting up.
\<close>

function sqrt_search :: "int \<Rightarrow> int \<Rightarrow> int" where
  "sqrt_search n k = (if 0 \<le> k \<and> (k + 1) * (k + 1) \<le> n then sqrt_search n (k + 1) else k)"
  by pat_completeness auto
termination
proof (relation "measure (\<lambda>(n, k). nat (n - k))")
  show "wf (measure (\<lambda>(n, k). nat (n - k)))"
    by simp
next
  fix n k :: int
  assume a: "0 \<le> k \<and> (k + 1) * (k + 1) \<le> n"
  then have "0 \<le> k * (k + 1)"
    by simp
  then have s: "k + 1 \<le> (k + 1) * (k + 1)"
    by (simp add: distrib_right)
  from a have "(k + 1) * (k + 1) \<le> n"
    by blast
  with s have "k + 1 \<le> n"
    by (rule order_trans)
  then have "k < n"
    by simp
  then show "((n, k + 1), (n, k)) \<in> measure (\<lambda>(n, k). nat (n - k))"
    by simp
qed

declare sqrt_search.simps [simp del]

definition int_sqrt :: "int \<Rightarrow> int" where
  "int_sqrt n = sqrt_search n 0"

text \<open>The inner loops of both sieves: \<open>for j in js: a[j] = False\<close>.\<close>

fun mark_false :: "int list \<Rightarrow> bool list \<Rightarrow> py_error + bool list" where
  "mark_false [] a = Inr a"
| "mark_false (j # js) a = err_bind (setitem a j False) (mark_false js)"

text \<open>The outer loop of \<open>sieve_primes\<close>, over \<open>range(2, int(n ** 0.5) + 1)\<close>.\<close>

fun sieve_loop :: "int \<Rightarrow> int list \<Rightarrow> bool list \<Rightarrow> py_error + bool list" where
  "sieve_loop n [] a = Inr a"
| "sieve_loop n (i # is) a =
     err_bind (getitem a i) (\<lambda>b.
       if b then err_bind (mark_false (py_range (i * i) (n + 1) i) a) (sieve_loop n is)
       else sieve_loop n is a)"

text \<open>The comprehension \<open>[i for i in js if a[i]]\<close>.\<close>

fun select_true :: "int list \<Rightarrow> bool list \<Rightarrow> py_error + int list" where
  "select_true [] a = Inr []"
| "select_true (i # is) a =
     err_bind (getitem a i) (\<lambda>b.
       err_bind (select_true is a) (\<lambda>rest. Inr (if b then i # rest else rest)))"

definition sieve_primes :: "int \<Rightarrow> py_error + int list" where
  "sieve_primes n =
     err_bind (setitem (replicate (nat (n + 1)) True) 0 False) (\<lambda>a0.
     err_bind (setitem a0 1 False) (\<lambda>a1.
     err_bind (sieve_loop n [2..int_sqrt n] a1) (\<lambda>a2.
     select_true [2..n] a2)))"

section \<open>count\_effective\_moduli.py\<close>

text \<open>The loop over the primes: the multiples of every prime off the class 1 mod 47 go.\<close>

fun remove_multiples :: "int \<Rightarrow> int list \<Rightarrow> bool list \<Rightarrow> py_error + bool list" where
  "remove_multiples D [] a = Inr a"
| "remove_multiples D (p # ps) a =
     (if (p - 1) mod 47 \<noteq> 0
      then err_bind (mark_false (py_range p (D + 1) p) a) (remove_multiples D ps)
      else remove_multiples D ps a)"

text \<open>\<open>sum\<close> over a list of booleans counts the true entries.\<close>

definition py_sum :: "bool list \<Rightarrow> int" where
  "py_sum a = sum_list (map (\<lambda>b. if b then 1 else 0) a)"

definition count_effective_moduli :: "int \<Rightarrow> py_error + int" where
  "count_effective_moduli D =
     err_bind (setitem (replicate (nat (D + 1)) True) 0 False) (\<lambda>is_eff.
     err_bind (sieve_primes D) (\<lambda>primes.
     err_bind (remove_multiples D primes is_eff) (\<lambda>is_eff'. Inr (py_sum is_eff'))))"

section \<open>verify\_double\_sparsity.py\<close>

text \<open>
  A Python float is an IEEE 754 binary64 number, and every arithmetic operation returns the
  exact result rounded to the nearest such number, ties to even. A float is modelled as the
  rational number it denotes, and \<open>fl\<close> is that rounding for the normal range (no
  overflow, no subnormal numbers), in which every value met here lies.
\<close>

text \<open>How often a value can be halved, or has to be doubled, to land in \<open>[1, 2)\<close>.\<close>

function halvings :: "rat \<Rightarrow> int" where
  "halvings x = (if 2 \<le> x then halvings (x / 2) + 1 else 0)"
  by pat_completeness auto
termination
proof (relation "measure (\<lambda>x. nat \<lfloor>x\<rfloor>)")
  show "wf (measure (\<lambda>x::rat. nat \<lfloor>x\<rfloor>))"
    by simp
next
  fix x :: rat
  assume x: "2 \<le> x"
  then have "x / 2 \<le> x - 1"
    by simp
  then have "\<lfloor>x / 2\<rfloor> \<le> \<lfloor>x - 1\<rfloor>"
    by (rule floor_mono)
  then have "\<lfloor>x / 2\<rfloor> < \<lfloor>x\<rfloor>"
    by simp
  moreover from x have "0 < \<lfloor>x\<rfloor>"
    by simp
  ultimately show "(x / 2, x) \<in> measure (\<lambda>x. nat \<lfloor>x\<rfloor>)"
    by simp
qed

function doublings :: "rat \<Rightarrow> int" where
  "doublings x = (if 0 < x \<and> x < 1 then doublings (x * 2) + 1 else 0)"
  by pat_completeness auto
termination
proof (relation "measure (\<lambda>x. nat \<lceil>1 / x\<rceil>)")
  show "wf (measure (\<lambda>x::rat. nat \<lceil>1 / x\<rceil>))"
    by simp
next
  fix x :: rat
  assume x: "0 < x \<and> x < 1"
  then have y: "1 < 1 / x"
    by simp
  have "\<lceil>1 / (x * 2)\<rceil> < \<lceil>1 / x\<rceil>"
  proof (cases "2 \<le> 1 / x")
    case True
    then have "1 / (x * 2) \<le> 1 / x - 1"
      by simp
    then have "\<lceil>1 / (x * 2)\<rceil> \<le> \<lceil>1 / x - 1\<rceil>"
      by (rule ceiling_mono)
    then show ?thesis by simp
  next
    case False
    with x have "1 < 2 * x"
      by (simp add: not_le pos_divide_less_eq)
    then have "1 / (x * 2) \<le> 1"
      using x by (simp add: mult.commute)
    then have c1: "\<lceil>1 / (x * 2)\<rceil> \<le> 1"
      by (simp only: ceiling_le_one)
    from y have "of_int 1 < 1 / x"
      by simp
    then have c2: "1 < \<lceil>1 / x\<rceil>"
      by (simp only: less_ceiling_iff)
    from c1 c2 show ?thesis by (rule le_less_trans)
  qed
  moreover from x have "0 < \<lceil>1 / x\<rceil>"
    by simp
  ultimately have "nat \<lceil>1 / (x * 2)\<rceil> < nat \<lceil>1 / x\<rceil>"
    by (simp only: nat_mono_iff)
  then show "(x * 2, x) \<in> measure (\<lambda>x. nat \<lceil>1 / x\<rceil>)"
    by simp
qed


declare halvings.simps [simp del]
declare doublings.simps [simp del]

text \<open>
  The binade of a positive value: the \<open>e\<close> with \<open>2 ^ e \<le> x < 2 ^ (e + 1)\<close>.
\<close>

definition binade :: "rat \<Rightarrow> int" where
  "binade x = (if 1 \<le> x then halvings x else - doublings x)"

definition two_pow :: "int \<Rightarrow> rat" where
  "two_pow e = (if 0 \<le> e then 2 ^ nat e else 1 / 2 ^ nat (- e))"

text \<open>Rounding to the nearest integer, a tie going to the even neighbour.\<close>

definition round_half_even :: "rat \<Rightarrow> int" where
  "round_half_even x =
     (let f = \<lfloor>x\<rfloor>; d = x - of_int f
      in if d < 1 / 2 then f else if 1 / 2 < d then f + 1 else if even f then f else f + 1)"

text \<open>The nearest value with a 53-bit significand.\<close>

definition fl :: "rat \<Rightarrow> rat" where
  "fl x = (if x = 0 then 0
           else of_int (round_half_even (x / two_pow (binade \<bar>x\<bar> - 52)))
                  * two_pow (binade \<bar>x\<bar> - 52))"

text \<open>\<open>a / b\<close> on numbers, for a non-zero divisor (all divisors here are literals).\<close>

definition py_float_div :: "rat \<Rightarrow> rat \<Rightarrow> rat" where
  "py_float_div a b = fl (a / b)"

text \<open>
  The integer literals 46, 45, 92 and 23 convert to floats exactly; each operation rounds.
\<close>

definition global_exponent :: "rat \<Rightarrow> rat" where
  "global_exponent B = py_float_div (fl (fl (46 * B) - 45)) 92"

definition restricted_exponent :: "rat \<Rightarrow> rat" where
  "restricted_exponent Bp = py_float_div (fl (fl (23 * Bp) - 45)) 46"

section \<open>What the results are compared with\<close>

text \<open>
  A prime is an integer from 2 on that no integer strictly between 1 and itself divides.
  An effective modulus is an integer all of whose prime divisors are 1 modulo 47.
\<close>

definition prime_number :: "int \<Rightarrow> bool" where
  "prime_number p = (2 \<le> p \<and> (\<forall>d\<in>set [2..p - 1]. \<not> d dvd p))"

definition effective_modulus :: "int \<Rightarrow> bool" where
  "effective_modulus q = (\<forall>p\<in>set [2..q]. prime_number p \<and> p dvd q \<longrightarrow> p mod 47 = 1)"

section \<open>Loop invariants\<close>

text \<open>
  After the outer loop of \<open>sieve_primes\<close> has handled every index up to \<open>k\<close>, the flag of
  \<open>j\<close> is still true exactly when \<open>j\<close> is at least 2 and no \<open>d\<close> from 2 to \<open>k\<close> with
  \<open>d * d \<le> j\<close> divides \<open>j\<close>.
\<close>

definition sieved :: "int \<Rightarrow> int \<Rightarrow> bool list \<Rightarrow> bool" where
  "sieved n k a = (length a = nat (n + 1) \<and>
     (\<forall>j. 0 \<le> j \<and> j \<le> n \<longrightarrow>
        a ! nat j = (2 \<le> j \<and> (\<forall>d. 2 \<le> d \<and> d \<le> k \<and> d * d \<le> j \<longrightarrow> \<not> d dvd j))))"

section \<open>Evaluating the 47th power\<close>

text \<open>Square and multiply along 47 = 2 * (2 * (2 * (2 * 2 + 1) + 1) + 1) + 1.\<close>

definition sqmul :: "int \<Rightarrow> int \<Rightarrow> int \<Rightarrow> int" where
  "sqmul m x b = x * x * b mod m"

definition pow47 :: "int \<Rightarrow> int \<Rightarrow> int" where
  "pow47 m b = sqmul m (sqmul m (sqmul m (sqmul m (b * b mod m) b) b) b) b"

lemma sqmul_pow: "sqmul m (b ^ i mod m) b = b ^ (Suc (i + i)) mod m"
proof -
  have "(b ^ i mod m) * (b ^ i mod m) * b mod m = (b ^ i * b ^ i) * b mod m"
    by (metis mod_mult_eq mod_mult_left_eq)
  also have "(b ^ i * b ^ i) * b = b ^ (Suc (i + i))"
    by (simp add: power_add)
  finally show ?thesis by (simp add: sqmul_def)
qed

lemma pow47_correct: "b ^ 47 mod m = pow47 m b"
proof -
  have b2: "b * b mod m = b ^ 2 mod m" by (simp add: power2_eq_square)
  have b5: "sqmul m (b ^ 2 mod m) b = b ^ 5 mod m" by (simp add: sqmul_pow)
  have b11: "sqmul m (b ^ 5 mod m) b = b ^ 11 mod m" by (simp add: sqmul_pow)
  have b23: "sqmul m (b ^ 11 mod m) b = b ^ 23 mod m" by (simp add: sqmul_pow)
  have b47: "sqmul m (b ^ 23 mod m) b = b ^ 47 mod m" by (simp add: sqmul_pow)
  show ?thesis
    unfolding pow47_def b2 b5 b11 b23 b47 ..
qed

lemma Q_residue_fast: "Q_residue p n = (pow47 p n - pow47 p ((n - 1) mod p)) mod p"
  by (simp add: Q_residue_def py_pow_def pow47_correct)

section \<open>The local root counter\<close>

lemma count_roots_filter:
  "count_roots p ns c = c + int (length (filter (\<lambda>n. Q_residue p n = 0) ns))"
  by (induction ns arbitrary: c) auto

lemma omega_brute_filter:
  "omega_brute p = int (length (filter (\<lambda>n. Q_residue p n = 0) [0..p - 1]))"
  by (simp add: omega_brute_def count_roots_filter)

lemma Q_residue_zero:
  assumes "2 \<le> p"
  shows "Q_residue p 0 = 1"
proof -
  have a: "py_pow 0 47 p = 0"
    by (simp add: py_pow_def)
  have "((0 - 1) mod p) ^ 47 mod p = ((0 - 1) :: int) ^ 47 mod p"
    by (rule power_mod)
  then have b: "py_pow ((0 - 1) mod p) 47 p = (- 1) mod p"
    by (simp add: py_pow_def)
  have "Q_residue p 0 = (0 - (- 1) mod p) mod p"
    unfolding Q_residue_def a b ..
  also have "\<dots> = (0 - (- 1)) mod p"
    by (rule mod_diff_right_eq)
  also have "\<dots> = 1"
    using assms by simp
  finally show ?thesis .
qed

lemma omega_brute_bounds:
  assumes "2 \<le> p"
  shows "0 \<le> omega_brute p \<and> omega_brute p \<le> p - 1"
proof -
  have split: "[0..p - 1] = 0 # [1..p - 1]"
    using assms by (simp add: upto_rec1)
  have "omega_brute p = int (length (filter (\<lambda>n. Q_residue p n = 0) [1..p - 1]))"
    using Q_residue_zero [OF assms] by (simp add: omega_brute_filter split)
  moreover have "length (filter (\<lambda>n. Q_residue p n = 0) [1..p - 1]) \<le> length [1..p - 1]"
    by (rule length_filter_le)
  moreover have "int (length [1..p - 1]) = p - 1"
    using assms by simp
  ultimately show ?thesis by linarith
qed

text \<open>
  C9: for every prime \<open>p\<close> (so \<open>p\<close> is at least 2), \<open>omega_brute p\<close> lies between 0 and
  \<open>p - 1\<close>: the residue 0 is never counted, because the value computed for it is 1.
\<close>

theorem omega_brute_range:
  assumes "prime_number p"
  shows "2 \<le> p \<and> Q_residue p 0 = 1 \<and> 0 \<le> omega_brute p \<and> omega_brute p \<le> p - 1"
proof -
  from assms have "2 \<le> p"
    by (simp add: prime_number_def)
  then show ?thesis
    using Q_residue_zero omega_brute_bounds by simp
qed

theorem omega_brute_range_witness:
  "prime_number 5 \<and> Q_residue 5 0 = 1 \<and> 0 \<le> omega_brute 5 \<and> omega_brute 5 \<le> 5 - 1"
proof -
  have p5: "prime_number 5"
    by (simp add: prime_number_def upto_rec1)
  from omega_brute_range [OF p5] p5 show ?thesis
    by simp
qed

lemma verify_loop_all: "verify_loop ns \<Longrightarrow> \<forall>r\<in>set ns. Q_residue 47 r = 1"
  by (induction ns) (auto split: if_splits)

text \<open>
  C7: the check of \<open>verify_mod47\<close> passes on all 47 residues, so it returns true: for
  every \<open>r\<close> from 0 to 46, \<open>r ^ 47 - ((r - 1) mod 47) ^ 47\<close> is 1 modulo 47.
\<close>

theorem verify_mod47_true:
  "verify_mod47 \<and> (\<forall>r\<in>{0..46::int}. (r ^ 47 - ((r - 1) mod 47) ^ 47) mod 47 = 1)"
proof -
  have eq: "(r ^ 47 - ((r - 1) mod 47) ^ 47) mod 47 = Q_residue 47 r" for r :: int
    unfolding Q_residue_def py_pow_def by (rule mod_diff_eq [symmetric])
  have vm: "verify_mod47"
    by (simp add: verify_mod47_def upto_rec1 Q_residue_fast pow47_def sqmul_def)
  then have "\<forall>r\<in>set [0..46]. Q_residue 47 r = 1"
    unfolding verify_mod47_def by (rule verify_loop_all)
  then have "\<forall>r\<in>{0..46}. Q_residue 47 r = 1"
    by (simp only: set_upto)
  with vm show ?thesis
    by (simp only: eq simp_thms)
qed

theorem verify_mod47_true_witness:
  "(46 ^ 47 - ((46 - 1) mod 47) ^ 47) mod 47 = (1::int)"
proof -
  have "(46::int) \<in> {0..46}"
    by simp
  with verify_mod47_true show ?thesis
    by blast
qed

section \<open>Classification\<close>

text \<open>
  C10: \<open>classify\<close> and \<open>omega_theory\<close> are total on the integers and test no primality:
  \<open>classify\<close> returns one of the three labels, \<open>omega_theory\<close> is 46 exactly on the
  label "splitting" and 0 otherwise, and the composite 95 = 5 * 19 is "splitting" with
  value 46.
\<close>

theorem classify_total:
  "classify p \<in> {''ramified'', ''splitting'', ''inert''}
   \<and> omega_theory p = (if classify p = ''splitting'' then 46 else 0)
   \<and> (95::int) = 5 * 19 \<and> classify 95 = ''splitting'' \<and> omega_theory 95 = 46"
  by (simp add: classify_def omega_theory_def)

section \<open>List writes, ranges and the inner loops\<close>

lemma err_bind_Inr [simp]: "err_bind (Inr x) f = f x"
  by (simp add: err_bind_def)

lemma err_bind_Inl [simp]: "err_bind (Inl e) f = Inl e"
  by (simp add: err_bind_def)

lemma setitem_ok: "0 \<le> i \<Longrightarrow> i < int (length a) \<Longrightarrow> setitem a i v = Inr (a[nat i := v])"
  by (simp add: setitem_def py_index_def)

lemma getitem_ok: "0 \<le> i \<Longrightarrow> i < int (length a) \<Longrightarrow> getitem a i = Inr (a ! nat i)"
  by (simp add: getitem_def py_index_def)

lemma mark_false_ok:
  "\<forall>j\<in>set js. 0 \<le> j \<and> j < int (length a) \<Longrightarrow>
   \<exists>a'. mark_false js a = Inr a' \<and> length a' = length a
     \<and> (\<forall>k<length a. a' ! k = (a ! k \<and> int k \<notin> set js))"
proof (induction js arbitrary: a)
  case Nil
  then show ?case by simp
next
  case (Cons j js)
  let ?b = "a[nat j := False]"
  from Cons.prems have j: "0 \<le> j" "j < int (length a)"
    by simp_all
  have "\<forall>j\<in>set js. 0 \<le> j \<and> j < int (length ?b)"
    using Cons.prems by simp
  from Cons.IH [OF this] obtain a' where
    a': "mark_false js ?b = Inr a'" "length a' = length a"
        "\<forall>k<length a. a' ! k = (?b ! k \<and> int k \<notin> set js)"
    by auto
  have "mark_false (j # js) a = Inr a'"
    using j a'(1) by (simp add: setitem_ok)
  moreover have "a' ! k = (a ! k \<and> int k \<notin> set (j # js))" if "k < length a" for k
  proof -
    have "(int k = j) = (k = nat j)"
      using j by auto
    then show ?thesis
      using a'(3) that by (auto simp: nth_list_update)
  qed
  ultimately show ?case
    using a'(2) by blast
qed

lemma set_py_range:
  "0 < s \<Longrightarrow> set (py_range a b s) = {j. a \<le> j \<and> j < b \<and> s dvd (j - a)}"
proof (induction a b s rule: py_range.induct)
  case (1 start stop step)
  show ?case
  proof (cases "start < stop")
    case False
    then show ?thesis
      by (subst py_range.simps) simp
  next
    case True
    with 1 have IH: "set (py_range (start + step) stop step)
        = {j. start + step \<le> j \<and> j < stop \<and> step dvd (j - (start + step))}"
      by simp
    have "(start \<le> j \<and> j < stop \<and> step dvd (j - start))
        = (j = start \<or> (start + step \<le> j \<and> j < stop \<and> step dvd (j - (start + step))))" for j
    proof (cases "j = start")
      case True
      with \<open>start < stop\<close> show ?thesis by simp
    next
      case False
      have d: "step dvd (j - (start + step)) = (step dvd (j - start))"
      proof -
        have e: "j - start = (j - (start + step)) + step" by simp
        show ?thesis by (metis e dvd_add_triv_right_iff)
      qed
      have "start + step \<le> j" if "start \<le> j" "step dvd (j - start)"
      proof -
        from that False have "0 < j - start" by simp
        with that(2) have "step \<le> j - start" by (rule zdvd_imp_le)
        then show ?thesis by simp
      qed
      moreover have "start \<le> j" if "start + step \<le> j"
        using that 1(2) by simp
      ultimately show ?thesis
        using False d by auto
    qed
    then have "{j. start \<le> j \<and> j < stop \<and> step dvd (j - start)}
        = insert start {j. start + step \<le> j \<and> j < stop \<and> step dvd (j - (start + step))}"
      by auto
    moreover have "py_range start stop step = start # py_range (start + step) stop step"
      using True 1(2) by (subst py_range.simps) simp
    ultimately show ?thesis
      using IH by simp
  qed
qed

lemma select_true_ok:
  "\<forall>i\<in>set is. 0 \<le> i \<and> i < int (length a) \<Longrightarrow>
   select_true is a = Inr (filter (\<lambda>i. a ! nat i) is)"
  by (induction "is") (simp_all add: getitem_ok)

section \<open>Correctness of the prime sieve\<close>

lemma prime_number_iff:
  "prime_number p = (2 \<le> p \<and> (\<forall>d. 2 \<le> d \<and> d < p \<longrightarrow> \<not> d dvd p))"
  by (auto simp: prime_number_def)

lemma less_square: "2 \<le> (d::int) \<Longrightarrow> d < d * d"
proof -
  assume d: "2 \<le> d"
  then have "2 * d \<le> d * d"
    by (intro mult_right_mono) auto
  with d show ?thesis by linarith
qed

lemma square_less_imp_le:
  assumes "(m::int) * m < (r + 1) * (r + 1)" "0 \<le> r"
  shows "m \<le> r"
proof (rule ccontr)
  assume "\<not> m \<le> r"
  then have "r + 1 \<le> m" by simp
  with assms(2) have "(r + 1) * (r + 1) \<le> m * m"
    by (intro mult_mono) auto
  with assms(1) show False by simp
qed

lemma sieved_final:
  assumes S: "sieved n r a" and r: "0 \<le> r" and lt: "n < (r + 1) * (r + 1)"
    and j: "0 \<le> j" "j \<le> n"
  shows "a ! nat j = prime_number j"
proof -
  have flag: "a ! nat j = (2 \<le> j \<and> (\<forall>d. 2 \<le> d \<and> d \<le> r \<and> d * d \<le> j \<longrightarrow> \<not> d dvd j))"
    using S j by (simp add: sieved_def)
  show ?thesis
  proof (cases "2 \<le> j")
    case False
    then show ?thesis
      by (simp add: flag prime_number_iff)
  next
    case True
    have "(\<forall>d. 2 \<le> d \<and> d \<le> r \<and> d * d \<le> j \<longrightarrow> \<not> d dvd j)
        = (\<forall>d. 2 \<le> d \<and> d < j \<longrightarrow> \<not> d dvd j)" (is "?A = ?B")
    proof
      assume A: ?A
      show ?B
      proof (intro allI impI)
        fix d assume d: "2 \<le> d \<and> d < j"
        show "\<not> d dvd j"
        proof
          assume "d dvd j"
          then obtain e where e: "j = d * e" by (auto simp: dvd_def)
          have e2: "2 \<le> e"
          proof (rule ccontr)
            assume "\<not> 2 \<le> e"
            then have "e \<le> 1" by simp
            with d have "d * e \<le> d * 1"
              by (intro mult_left_mono) auto
            with e d show False by simp
          qed
          define m where "m = min d e"
          have m: "2 \<le> m" "m \<le> d" "m \<le> e"
            using d e2 by (auto simp: m_def)
          then have "m * m \<le> d * e"
            by (intro mult_mono) auto
          with e have mm: "m * m \<le> j" by simp
          with j lt have "m * m < (r + 1) * (r + 1)" by linarith
          then have "m \<le> r" using r by (rule square_less_imp_le)
          moreover have "m dvd j"
            unfolding m_def e by (cases "d \<le> e") (simp_all add: min_def)
          ultimately show False
            using A m(1) mm by blast
        qed
      qed
    next
      assume B: ?B
      show ?A
      proof (intro allI impI)
        fix d assume d: "2 \<le> d \<and> d \<le> r \<and> d * d \<le> j"
        then have "d < d * d" by (simp add: less_square)
        with d have "d < j" by linarith
        with B d show "\<not> d dvd j" by blast
      qed
    qed
    then show ?thesis
      using True by (simp add: flag prime_number_iff)
  qed
qed

lemma sieved_mark:
  assumes S: "sieved n (i - 1) a" and i: "2 \<le> i"
    and len: "length a' = length a"
    and upd: "\<forall>k<length a. a' ! k = (a ! k \<and> int k \<notin> {j. i * i \<le> j \<and> j < n + 1 \<and> i dvd (j - i * i)})"
  shows "sieved n i a'"
  unfolding sieved_def
proof (intro conjI allI impI)
  show "length a' = nat (n + 1)"
    using S len by (simp add: sieved_def)
next
  fix j assume j: "0 \<le> j \<and> j \<le> n"
  then have k: "nat j < length a"
    using S by (simp add: sieved_def)
  have dv: "i dvd (j - i * i) = (i dvd j)"
    by (simp add: dvd_diff_left_iff)
  have old: "a ! nat j = (2 \<le> j \<and> (\<forall>d. 2 \<le> d \<and> d \<le> i - 1 \<and> d * d \<le> j \<longrightarrow> \<not> d dvd j))"
    using S j by (simp add: sieved_def)
  have new: "a' ! nat j = (a ! nat j \<and> \<not> (i * i \<le> j \<and> i dvd j))"
    using upd k j dv by auto
  have split: "(d \<le> i) = (d \<le> i - 1 \<or> d = i)" for d
    by auto
  show "a' ! nat j = (2 \<le> j \<and> (\<forall>d. 2 \<le> d \<and> d \<le> i \<and> d * d \<le> j \<longrightarrow> \<not> d dvd j))"
    unfolding new old split using i by auto
qed

lemma sieved_skip:
  assumes S: "sieved n (i - 1) a" and i: "2 \<le> i" "i \<le> n" and off: "\<not> a ! nat i"
  shows "sieved n i a"
  unfolding sieved_def
proof (intro conjI allI impI)
  show "length a = nat (n + 1)"
    using S by (simp add: sieved_def)
next
  fix j assume j: "0 \<le> j \<and> j \<le> n"
  have "a ! nat i = (2 \<le> i \<and> (\<forall>d. 2 \<le> d \<and> d \<le> i - 1 \<and> d * d \<le> i \<longrightarrow> \<not> d dvd i))"
    using S i by (simp add: sieved_def)
  with off i obtain d where d: "2 \<le> d" "d \<le> i - 1" "d * d \<le> i" "d dvd i"
    by auto
  have old: "a ! nat j = (2 \<le> j \<and> (\<forall>d. 2 \<le> d \<and> d \<le> i - 1 \<and> d * d \<le> j \<longrightarrow> \<not> d dvd j))"
    using S j by (simp add: sieved_def)
  have extra: "\<not> (i * i \<le> j \<and> i dvd j)" if "a ! nat j"
  proof
    assume c: "i * i \<le> j \<and> i dvd j"
    from i have "i < i * i" by (simp add: less_square)
    with c d(3) have "d * d \<le> j" by linarith
    moreover from d(4) c have "d dvd j" by (blast intro: dvd_trans)
    ultimately show False
      using that old d(1,2) by blast
  qed
  have split: "(d \<le> i) = (d \<le> i - 1 \<or> d = i)" for d
    by auto
  show "a ! nat j = (2 \<le> j \<and> (\<forall>d. 2 \<le> d \<and> d \<le> i \<and> d * d \<le> j \<longrightarrow> \<not> d dvd j))"
    unfolding split using old extra by auto
qed

lemma sieved_init:
  assumes "1 \<le> n"
  shows "sieved n 1 ((replicate (nat (n + 1)) True)[0 := False, Suc 0 := False])"
  unfolding sieved_def
proof (intro conjI allI impI)
  show "length ((replicate (nat (n + 1)) True)[0 := False, Suc 0 := False]) = nat (n + 1)"
    by simp
next
  fix j assume j: "0 \<le> j \<and> j \<le> n"
  then have k: "nat j < nat (n + 1)" by simp
  have "(2 \<le> j) = (nat j \<noteq> 0 \<and> nat j \<noteq> Suc 0)"
    using j by auto
  then show "(replicate (nat (n + 1)) True)[0 := False, Suc 0 := False] ! nat j
      = (2 \<le> j \<and> (\<forall>d. 2 \<le> d \<and> d \<le> 1 \<and> d * d \<le> j \<longrightarrow> \<not> d dvd j))"
    using k by (auto simp: nth_list_update)
qed

lemma sieve_loop_ok:
  "sieved n (lo - 1) a \<Longrightarrow> 2 \<le> lo \<Longrightarrow> r \<le> n \<Longrightarrow> lo \<le> r + 1 \<Longrightarrow>
   \<exists>a'. sieve_loop n [lo..r] a = Inr a' \<and> sieved n r a'"
proof (induction lo r arbitrary: a rule: upto.induct)
  case (1 i j)
  show ?case
  proof (cases "i \<le> j")
    case False
    with 1(5) have "i - 1 = j" by simp
    with 1(2) False show ?thesis by simp
  next
    case True
    have len: "length a = nat (n + 1)"
      using 1(2) by (simp add: sieved_def)
    have i: "0 \<le> i" "i < int (length a)" "i \<le> n"
      using 1(3,4) True len by auto
    have list: "[i..j] = i # [i + 1..j]"
      using True by (simp add: upto_rec1)
    have "\<exists>b. (if a ! nat i then mark_false (py_range (i * i) (n + 1) i) a else Inr a) = Inr b
        \<and> sieved n i b"
    proof (cases "a ! nat i")
      case False
      then show ?thesis
        using sieved_skip [OF 1(2) 1(3) i(3)] by simp
    next
      case True
      have rng: "set (py_range (i * i) (n + 1) i) = {j. i * i \<le> j \<and> j < n + 1 \<and> i dvd (j - i * i)}"
        using 1(3) by (simp add: set_py_range)
      have "\<forall>j\<in>set (py_range (i * i) (n + 1) i). 0 \<le> j \<and> j < int (length a)"
      proof
        fix j assume "j \<in> set (py_range (i * i) (n + 1) i)"
        then have a1: "i * i \<le> j" and a2: "j < n + 1" by (simp_all add: rng)
        from zero_le_square [of i] a1 have "0 \<le> j" by (rule order_trans)
        moreover from this a2 len have "j < int (length a)" by simp
        ultimately show "0 \<le> j \<and> j < int (length a)" by simp
      qed
      from mark_false_ok [OF this] obtain b where
        b: "mark_false (py_range (i * i) (n + 1) i) a = Inr b" "length b = length a"
           "\<forall>k<length a. b ! k = (a ! k \<and> int k \<notin> set (py_range (i * i) (n + 1) i))"
        by auto
      have "sieved n i b"
        using 1(2) 1(3) b(2) b(3) unfolding rng by (rule sieved_mark)
      with b(1) True show ?thesis by simp
    qed
    then obtain b where
      b: "(if a ! nat i then mark_false (py_range (i * i) (n + 1) i) a else Inr a) = Inr b"
         "sieved n i b"
      by auto
    have unfold: "sieve_loop n [i..j] a =
        (if a ! nat i
         then err_bind (mark_false (py_range (i * i) (n + 1) i) a) (sieve_loop n [i + 1..j])
         else sieve_loop n [i + 1..j] a)"
      by (simp add: list getitem_ok [OF i(1,2)])
    have step: "sieve_loop n [i..j] a = sieve_loop n [i + 1..j] b"
    proof (cases "a ! nat i")
      case True
      with b(1) have "mark_false (py_range (i * i) (n + 1) i) a = Inr b" by simp
      with True show ?thesis
        unfolding unfold by simp
    next
      case False
      with b(1) have "a = b" by simp
      with False show ?thesis
        unfolding unfold by simp
    qed
    have "sieved n (i + 1 - 1) b"
      using b(2) by simp
    from 1(1) [OF True this] 1(3,4) True obtain a' where
      "sieve_loop n [i + 1..j] b = Inr a' \<and> sieved n j a'"
      by auto
    with step show ?thesis by simp
  qed
qed

lemma sqrt_search_spec:
  "0 \<le> k \<Longrightarrow> k * k \<le> n \<Longrightarrow>
   k \<le> sqrt_search n k \<and> sqrt_search n k * sqrt_search n k \<le> n
     \<and> n < (sqrt_search n k + 1) * (sqrt_search n k + 1)"
proof (induction n k rule: sqrt_search.induct)
  case (1 n k)
  show ?case
  proof (cases "(k + 1) * (k + 1) \<le> n")
    case True
    with 1(2) have call: "sqrt_search n k = sqrt_search n (k + 1)"
      by (subst sqrt_search.simps) simp
    from 1(2) True have "0 \<le> k \<and> (k + 1) * (k + 1) \<le> n" by simp
    from 1(1) [OF this] 1(2) True show ?thesis
      unfolding call by simp
  next
    case False
    with 1(2) have "sqrt_search n k = k"
      by (subst sqrt_search.simps) simp
    with False 1(3) show ?thesis by simp
  qed
qed

lemma int_sqrt_spec:
  assumes "1 \<le> n"
  shows "1 \<le> int_sqrt n \<and> int_sqrt n \<le> n \<and> n < (int_sqrt n + 1) * (int_sqrt n + 1)"
proof -
  have s: "0 \<le> int_sqrt n \<and> int_sqrt n * int_sqrt n \<le> n
      \<and> n < (int_sqrt n + 1) * (int_sqrt n + 1)"
    unfolding int_sqrt_def using sqrt_search_spec [of 0 n] assms by simp
  have one: "1 \<le> int_sqrt n"
  proof (rule ccontr)
    assume "\<not> 1 \<le> int_sqrt n"
    with s have "int_sqrt n = 0" by simp
    with s assms show False by simp
  qed
  then have "int_sqrt n * 1 \<le> int_sqrt n * int_sqrt n"
    by (intro mult_left_mono) auto
  then have "int_sqrt n \<le> int_sqrt n * int_sqrt n"
    by (simp only: mult_1_right)
  also from s have "\<dots> \<le> n"
    by blast
  finally have "int_sqrt n \<le> n" .
  with s one show ?thesis by blast
qed

lemma sieve_primes_eq:
  assumes "1 \<le> n"
  shows "sieve_primes n = Inr (filter prime_number [2..n])"
proof -
  let ?a1 = "(replicate (nat (n + 1)) True)[0 := False, Suc 0 := False]"
  let ?r = "int_sqrt n"
  from int_sqrt_spec [OF assms] have r: "1 \<le> ?r" "?r \<le> n" "n < (?r + 1) * (?r + 1)"
    by simp_all
  have init: "sieved n (2 - 1) ?a1"
    using sieved_init [OF assms] by simp
  from sieve_loop_ok [OF init _ r(2)] r(1) obtain a2 where
    a2: "sieve_loop n [2..?r] ?a1 = Inr a2" "sieved n ?r a2"
    by auto
  have len: "length a2 = nat (n + 1)"
    using a2(2) by (simp add: sieved_def)
  have flags: "a2 ! nat j = prime_number j" if "0 \<le> j" "j \<le> n" for j
    using a2(2) _ r(3) that by (rule sieved_final) (use r(1) in simp)
  have "\<forall>i\<in>set [2..n]. 0 \<le> i \<and> i < int (length a2)"
    using len by auto
  then have sel: "select_true [2..n] a2 = Inr (filter (\<lambda>i. a2 ! nat i) [2..n])"
    by (rule select_true_ok)
  have "filter (\<lambda>i. a2 ! nat i) [2..n] = filter prime_number [2..n]"
    by (rule filter_cong) (auto simp: flags)
  with sel have sel': "select_true [2..n] a2 = Inr (filter prime_number [2..n])"
    by simp
  have w0: "setitem (replicate (nat (n + 1)) True) 0 False = Inr ((replicate (nat (n + 1)) True)[0 := False])"
    using assms by (simp add: setitem_ok)
  have w1: "setitem ((replicate (nat (n + 1)) True)[0 := False]) 1 False = Inr ?a1"
    using assms by (simp add: setitem_ok)
  show ?thesis
    unfolding sieve_primes_def w0 err_bind_Inr w1 a2(1) sel' ..
qed

lemma sieve_primes_nonpositive: "n \<le> 0 \<Longrightarrow> sieve_primes n = Inl IndexError"
  by (cases "n = 0") (simp_all add: sieve_primes_def setitem_def py_index_def)

lemma sieve_primes_one: "sieve_primes 1 = Inr []"
  using sieve_primes_eq [of 1] by simp

section \<open>The prime sieve: results\<close>

lemma primes_100:
  "filter prime_number [2..100] =
     [2, 3, 5, 7, 11, 13, 17, 19, 23, 29, 31, 37, 41, 43, 47, 53, 59, 61, 67, 71, 73, 79, 83, 89, 97]"
  by (simp add: prime_number_def upto_rec1)

text \<open>
  C3: for every \<open>N\<close> from 2 on, \<open>sieve_primes N\<close> returns the strictly increasing,
  duplicate-free list of exactly the primes up to \<open>N\<close>; for \<open>N = 100\<close> these are the 25
  primes from 2 to 97.
\<close>

theorem sieve_primes_correct:
  "(2 \<le> N \<longrightarrow>
      (\<exists>ps. sieve_primes N = Inr ps \<and> sorted_wrt (<) ps \<and> distinct ps
         \<and> set ps = {p. prime_number p \<and> 2 \<le> p \<and> p \<le> N}))
   \<and> sieve_primes 100 =
       Inr [2, 3, 5, 7, 11, 13, 17, 19, 23, 29, 31, 37, 41, 43, 47, 53, 59, 61, 67, 71, 73, 79,
            83, 89, 97]
   \<and> length [2, 3, 5, 7, 11, 13, 17, 19, 23, 29, 31, 37, 41, 43, 47, 53, 59, 61, 67, 71, 73,
            79, 83, 89, 97 :: int] = 25"
proof (intro conjI impI)
  assume N: "2 \<le> N"
  then have eq: "sieve_primes N = Inr (filter prime_number [2..N])"
    by (simp add: sieve_primes_eq)
  have "sorted_wrt (<) (filter prime_number [2..N])"
    by (rule sorted_wrt_filter) simp
  moreover have "distinct (filter prime_number [2..N])"
    by simp
  moreover have "set (filter prime_number [2..N]) = {p. prime_number p \<and> 2 \<le> p \<and> p \<le> N}"
    by auto
  ultimately show "\<exists>ps. sieve_primes N = Inr ps \<and> sorted_wrt (<) ps \<and> distinct ps
      \<and> set ps = {p. prime_number p \<and> 2 \<le> p \<and> p \<le> N}"
    using eq by blast
next
  show "sieve_primes 100 =
       Inr [2, 3, 5, 7, 11, 13, 17, 19, 23, 29, 31, 37, 41, 43, 47, 53, 59, 61, 67, 71, 73, 79,
            83, 89, 97]"
    using sieve_primes_eq [of 100] by (simp only: primes_100)
next
  show "length [2, 3, 5, 7, 11, 13, 17, 19, 23, 29, 31, 37, 41, 43, 47, 53, 59, 61, 67, 71, 73,
            79, 83, 89, 97 :: int] = 25"
    by simp
qed

theorem sieve_primes_correct_witness:
  "\<exists>ps. sieve_primes 10 = Inr ps \<and> sorted_wrt (<) ps \<and> distinct ps
     \<and> set ps = {p. prime_number p \<and> 2 \<le> p \<and> p \<le> 10}"
proof -
  have "(2::int) \<le> 10" by simp
  with sieve_primes_correct [of 10] show ?thesis by blast
qed

text \<open>
  C6: the claim is that \<open>sieve_primes\<close> returns the empty list for every bound below 2.
  For the bound 1 it does; for 0 the write to index 1 of a one-element list raises, and for a
  negative bound the list is empty and the write to index 0 raises.
\<close>

theorem sieve_primes_below_two:
  "sieve_primes 0 = Inl IndexError \<and> sieve_primes (- 1) = Inl IndexError \<and> sieve_primes 1 = Inr []"
  by (simp add: sieve_primes_nonpositive sieve_primes_one)

section \<open>Correctness of the effective-moduli count\<close>

lemma remove_multiples_ok:
  "\<forall>p\<in>set ps. 1 \<le> p \<Longrightarrow> length a = nat (D + 1) \<Longrightarrow>
   \<exists>a'. remove_multiples D ps a = Inr a' \<and> length a' = length a
     \<and> (\<forall>k<length a. a' ! k =
           (a ! k \<and> \<not> (\<exists>p\<in>set ps. (p - 1) mod 47 \<noteq> 0 \<and> p \<le> int k \<and> p dvd int k)))"
proof (induction ps arbitrary: a)
  case Nil
  then show ?case by simp
next
  case (Cons p ps)
  from Cons.prems have p: "1 \<le> p" and ps: "\<forall>p\<in>set ps. 1 \<le> p"
    by simp_all
  show ?case
  proof (cases "(p - 1) mod 47 \<noteq> 0")
    case False
    from Cons.IH [OF ps Cons.prems(2)] obtain a' where
      a': "remove_multiples D ps a = Inr a'" "length a' = length a"
          "\<forall>k<length a. a' ! k =
             (a ! k \<and> \<not> (\<exists>p\<in>set ps. (p - 1) mod 47 \<noteq> 0 \<and> p \<le> int k \<and> p dvd int k))"
      by auto
    from False a'(1) have "remove_multiples D (p # ps) a = Inr a'"
      by simp
    with a'(2,3) False show ?thesis
      by auto
  next
    case True
    have rng: "set (py_range p (D + 1) p) = {j. p \<le> j \<and> j < D + 1 \<and> p dvd (j - p)}"
      using p by (simp add: set_py_range)
    have "\<forall>j\<in>set (py_range p (D + 1) p). 0 \<le> j \<and> j < int (length a)"
      using p Cons.prems(2) by (auto simp: rng)
    from mark_false_ok [OF this] obtain b where
      b: "mark_false (py_range p (D + 1) p) a = Inr b" "length b = length a"
         "\<forall>k<length a. b ! k = (a ! k \<and> int k \<notin> set (py_range p (D + 1) p))"
      by auto
    have bk: "b ! k = (a ! k \<and> \<not> (p \<le> int k \<and> p dvd int k))" if "k < length a" for k
    proof -
      have "int k < D + 1"
        using that Cons.prems(2) by simp
      moreover have "p dvd (int k - p) = (p dvd int k)"
        by (simp add: dvd_diff_left_iff)
      ultimately show ?thesis
        using b(3) that by (simp add: rng)
    qed
    have "length b = nat (D + 1)"
      using b(2) Cons.prems(2) by simp
    from Cons.IH [OF ps this] obtain a' where
      a': "remove_multiples D ps b = Inr a'" "length a' = length b"
          "\<forall>k<length b. a' ! k =
             (b ! k \<and> \<not> (\<exists>p\<in>set ps. (p - 1) mod 47 \<noteq> 0 \<and> p \<le> int k \<and> p dvd int k))"
      by auto
    from True b(1) a'(1) have "remove_multiples D (p # ps) a = Inr a'"
      by simp
    moreover have "length a' = length a"
      using a'(2) b(2) by simp
    moreover have "\<forall>k<length a. a' ! k =
        (a ! k \<and> \<not> (\<exists>q\<in>set (p # ps). (q - 1) mod 47 \<noteq> 0 \<and> q \<le> int k \<and> q dvd int k))"
      using a'(3) b(2) bk True by auto
    ultimately show ?thesis
      by blast
  qed
qed

lemma py_sum_filter: "py_sum a = int (length (filter (\<lambda>b. b) a))"
  by (induction a) (simp_all add: py_sum_def)

lemma flags_as_map:
  assumes "length a = nat (D + 1)" "0 \<le> D"
  shows "a = map (\<lambda>j. a ! nat j) [0..D]"
proof (rule nth_equalityI)
  show "length a = length (map (\<lambda>j. a ! nat j) [0..D])"
    using assms by simp
next
  fix i assume "i < length a"
  then have "0 + int i \<le> D"
    using assms by simp
  then have "[0..D] ! i = 0 + int i"
    by (rule nth_upto)
  moreover have "i < length [0..D]"
    using \<open>i < length a\<close> assms by simp
  ultimately show "a ! i = map (\<lambda>j. a ! nat j) [0..D] ! i"
    by simp
qed

lemma py_sum_flags:
  assumes "length a = nat (D + 1)" "0 \<le> D"
  shows "py_sum a = int (length (filter (\<lambda>j. a ! nat j) [0..D]))"
proof -
  have "filter (\<lambda>b. b) (map (\<lambda>j. a ! nat j) [0..D])
      = map (\<lambda>j. a ! nat j) (filter (\<lambda>j. a ! nat j) [0..D])"
    by (simp add: filter_map comp_def)
  then have "length (filter (\<lambda>b. b) (map (\<lambda>j. a ! nat j) [0..D]))
      = length (filter (\<lambda>j. a ! nat j) [0..D])"
    by simp
  with flags_as_map [OF assms] show ?thesis
    by (simp add: py_sum_filter)
qed

lemma mod47_one: "((p - 1) mod 47 = 0) = (p mod 47 = 1)" for p :: int
  by presburger

lemma count_eq:
  assumes D: "1 \<le> D"
  shows "count_effective_moduli D = Inr (int (length (filter effective_modulus [1..D])))"
proof -
  let ?e0 = "(replicate (nat (D + 1)) True)[0 := False]"
  let ?ps = "filter prime_number [2..D]"
  have w0: "setitem (replicate (nat (D + 1)) True) 0 False = Inr ?e0"
    using D by (simp add: setitem_ok)
  have sp: "sieve_primes D = Inr ?ps"
    using D by (rule sieve_primes_eq)
  have "\<forall>p\<in>set ?ps. 1 \<le> p"
    by auto
  moreover have len0: "length ?e0 = nat (D + 1)"
    by simp
  ultimately obtain a' where
    a': "remove_multiples D ?ps ?e0 = Inr a'" "length a' = length ?e0"
        "\<forall>k<length ?e0. a' ! k =
           (?e0 ! k \<and> \<not> (\<exists>p\<in>set ?ps. (p - 1) mod 47 \<noteq> 0 \<and> p \<le> int k \<and> p dvd int k))"
    using remove_multiples_ok [of ?ps ?e0 D] by blast
  have len: "length a' = nat (D + 1)"
    using a'(2) by simp
  have zero: "\<not> a' ! nat 0"
    using a'(3) D by simp
  have flag: "a' ! nat j = effective_modulus j" if j: "j \<in> set [1..D]" for j
  proof -
    from j have j1: "1 \<le> j" "j \<le> D" by simp_all
    then have k: "nat j < length ?e0" "nat j \<noteq> 0" "int (nat j) = j"
      by simp_all
    have "?e0 ! nat j"
      using k(1,2) by (simp add: nth_list_update)
    with a'(3) k have "a' ! nat j =
        (\<not> (\<exists>p\<in>set ?ps. (p - 1) mod 47 \<noteq> 0 \<and> p \<le> j \<and> p dvd j))"
      by simp
    also have "\<dots> = effective_modulus j"
      unfolding effective_modulus_def mod47_one using j1 by auto
    finally show ?thesis .
  qed
  have "py_sum a' = int (length (filter (\<lambda>j. a' ! nat j) [0..D]))"
    using len D by (intro py_sum_flags) simp_all
  also have "[0..D] = 0 # [1..D]"
    using D by (simp add: upto_rec1)
  also have "filter (\<lambda>j. a' ! nat j) (0 # [1..D]) = filter (\<lambda>j. a' ! nat j) [1..D]"
    using zero by simp
  also have "\<dots> = filter effective_modulus [1..D]"
    by (rule filter_cong) (simp_all add: flag)
  finally have sum: "py_sum a' = int (length (filter effective_modulus [1..D]))" .
  show ?thesis
    unfolding count_effective_moduli_def w0 err_bind_Inr sp a'(1) sum ..
qed

lemma count_zero: "count_effective_moduli 0 = Inl IndexError"
  by (simp add: count_effective_moduli_def setitem_ok sieve_primes_nonpositive)

lemma effective_one: "effective_modulus 1"
  by (simp add: effective_modulus_def)

lemma count_one: "count_effective_moduli 1 = Inr 1"
  using count_eq [of 1] effective_one by simp

section \<open>The effective-moduli count: results\<close>

lemma prime_47: "prime_number 47"
  by (simp add: prime_number_def upto_rec1)

lemma not_effective_47: "\<not> effective_modulus 47"
proof
  assume "effective_modulus 47"
  moreover have "(47::int) \<in> set [2..47]" by simp
  ultimately have "prime_number 47 \<and> (47::int) dvd 47 \<longrightarrow> (47::int) mod 47 = 1"
    unfolding effective_modulus_def by (rule bspec)
  with prime_47 show False by simp
qed

lemma count_as_card:
  "length (filter effective_modulus [1..D]) = card {q. 1 \<le> q \<and> q \<le> D \<and> effective_modulus q}"
proof -
  have "distinct (filter effective_modulus [1..D])"
    by simp
  then have "card (set (filter effective_modulus [1..D])) = length (filter effective_modulus [1..D])"
    by (rule distinct_card)
  moreover have "set (filter effective_modulus [1..D])
      = {q. 1 \<le> q \<and> q \<le> D \<and> effective_modulus q}"
    by auto
  ultimately show ?thesis by simp
qed

lemma not_effective_2: "\<not> effective_modulus 2"
  by (simp add: effective_modulus_def prime_number_def upto_rec1)

lemma not_effective_3: "\<not> effective_modulus 3"
  by (simp add: effective_modulus_def prime_number_def upto_rec1)

text \<open>
  C1: for every \<open>D\<close> from 1 on, \<open>count_effective_moduli D\<close> returns the number of integers
  from 1 to \<open>D\<close> all of whose prime divisors are 1 modulo 47; the integer 1 counts, and 47
  does not.
\<close>

theorem count_effective_moduli_correct:
  "(1 \<le> D \<longrightarrow>
      count_effective_moduli D = Inr (int (card {q. 1 \<le> q \<and> q \<le> D \<and> effective_modulus q}))
      \<and> count_effective_moduli D = Inr (int (length (filter effective_modulus [1..D]))))
   \<and> effective_modulus 1 \<and> \<not> effective_modulus 47"
  using count_eq [of D] effective_one not_effective_47 by (simp add: count_as_card)

theorem count_effective_moduli_correct_witness:
  "count_effective_moduli 3 = Inr 1"
proof -
  have f: "filter effective_modulus [1..3] = [1]"
    using effective_one not_effective_2 not_effective_3 by (simp add: upto_rec1)
  have "(1::int) \<le> 3" by simp
  with count_effective_moduli_correct [of 3]
  have "count_effective_moduli 3 = Inr (int (length (filter effective_modulus [1..3])))"
    by blast
  then show ?thesis
    unfolding f by simp
qed

text \<open>
  C5: the claim is that \<open>count_effective_moduli 0\<close> returns 0 without failing. The call
  reaches \<open>sieve_primes 0\<close>, which raises.
\<close>

theorem count_at_zero:
  "count_effective_moduli 0 = Inl IndexError \<and> count_effective_moduli 0 \<noteq> Inr 0"
  by (simp add: count_zero)

lemma count_monotone_from_two:
  assumes "2 \<le> D"
  shows "\<exists>c c'. count_effective_moduli D = Inr c \<and> count_effective_moduli (D - 1) = Inr c'
           \<and> c' \<le> c"
proof -
  have "[1..D] = [1..D - 1] @ [D]"
    using assms by (simp add: upto_rec2)
  then have "length (filter effective_modulus [1..D - 1]) \<le> length (filter effective_modulus [1..D])"
    by simp
  moreover have "count_effective_moduli D = Inr (int (length (filter effective_modulus [1..D])))"
    using assms by (intro count_eq) simp
  moreover have "count_effective_moduli (D - 1)
      = Inr (int (length (filter effective_modulus [1..D - 1])))"
    using assms by (intro count_eq) simp
  ultimately show ?thesis by simp
qed

text \<open>
  C4: the claim is that for every \<open>D\<close> from 1 on both \<open>count_effective_moduli D\<close> and
  \<open>count_effective_moduli (D - 1)\<close> return, the first at least the second. At \<open>D = 1\<close> the
  second call raises; from \<open>D = 2\<close> on both return and the count does not decrease.
\<close>

theorem count_monotone:
  "count_effective_moduli 1 = Inr 1 \<and> count_effective_moduli (1 - 1) = Inl IndexError
   \<and> (2 \<le> D \<longrightarrow>
        (\<exists>c c'. count_effective_moduli D = Inr c \<and> count_effective_moduli (D - 1) = Inr c'
           \<and> c' \<le> c))"
  using count_one count_zero count_monotone_from_two [of D] by simp

theorem count_monotone_witness:
  "\<exists>c c'. count_effective_moduli 2 = Inr c \<and> count_effective_moduli (2 - 1) = Inr c' \<and> c' \<le> c"
proof -
  have "(2::int) \<le> 2" by simp
  with count_monotone [of 2] show ?thesis by blast
qed

section \<open>The exponents at their thresholds\<close>

lemma floor_rat_numeral:
  "\<lfloor>numeral a / numeral b :: rat\<rfloor> = numeral a div numeral b"
  using floor_divide_of_int_eq [of "numeral a" "numeral b", where ?'a = rat] by simp

lemma binade_45_46: "binade (45 / 46) = - 1"
  by (simp add: binade_def doublings.simps)

lemma binade_45: "binade 45 = 5"
  by (simp add: binade_def halvings.simps)

lemma fl_45_46: "fl (45 / 46) = 8811390575290101 / 9007199254740992"
  by (simp add: fl_def binade_45_46 two_pow_def round_half_even_def Let_def floor_rat_numeral)

lemma fl_46_times: "fl (46 * (8811390575290101 / 9007199254740992)) = 45"
  by (simp add: fl_def binade_def halvings.simps two_pow_def round_half_even_def Let_def floor_rat_numeral)

lemma fl_45_23: "fl (45 / 23) = 8811390575290101 / 4503599627370496"
  by (simp add: fl_def binade_def halvings.simps doublings.simps two_pow_def round_half_even_def Let_def floor_rat_numeral)

lemma fl_23_times: "fl (23 * (8811390575290101 / 4503599627370496)) = 45"
  by (simp add: fl_def binade_def halvings.simps two_pow_def round_half_even_def Let_def floor_rat_numeral)

lemma fl_zero: "fl 0 = 0"
  by (simp add: fl_def)

text \<open>
  C8: \<open>global_exponent\<close> at the float \<open>45/46\<close> and \<open>restricted_exponent\<close> at the float
  \<open>45/23\<close> both return exactly 0: in each case the product rounds to exactly 45.
\<close>

theorem exponents_vanish_at_thresholds:
  "global_exponent (py_float_div 45 46) = 0 \<and> restricted_exponent (py_float_div 45 23) = 0"
  unfolding global_exponent_def restricted_exponent_def py_float_div_def fl_45_46 fl_46_times fl_45_23 fl_23_times
  by (simp add: fl_zero)

end
